theory Spec2Isabelle
  imports Main
begin

section \<open>The data model of \<^verbatim>\<open>src/index.ts\<close>\<close>

text \<open>
  \<^verbatim>\<open>type AVLNode<T> = Node<T> | undefined\<close>, with the fields of \<^verbatim>\<open>Node<T>\<close> in the
  order of the interface: \<^verbatim>\<open>val\<close>, \<^verbatim>\<open>left\<close>, \<^verbatim>\<open>right\<close>, \<^verbatim>\<open>height\<close>. The cached height is a
  JavaScript number that only ever holds integers, so it is an \<open>int\<close>.

  Every node has exactly one owner (its parent, or the handle's \<^verbatim>\<open>tree\<close> variable), so
  the in-place updates of the source are modelled by returning the updated subtree.
  A \<^verbatim>\<open>TypeError\<close> raised by reading a property of \<^verbatim>\<open>undefined\<close> is the result \<open>None\<close>.

  Keys (\<^verbatim>\<open>Comparable\<close>) are modelled as a linear order on which \<^verbatim>\<open>===\<close> is equality:
  numbers other than NaN, or strings. \<^verbatim>\<open>Date\<close> keys, on which \<^verbatim>\<open>===\<close> is the identity of
  objects, are outside this model.
\<close>

datatype 'a AVLNode = Undefined | Node 'a "'a AVLNode" "'a AVLNode" int

fun height :: "'a AVLNode \<Rightarrow> int" where
  "height Undefined = 0"
| "height (Node v l r h) = h"

definition createNode :: "'a \<Rightarrow> 'a AVLNode \<Rightarrow> 'a AVLNode \<Rightarrow> 'a AVLNode" where
  "createNode v l r = Node v l r (1 + max (height l) (height r))"

section \<open>Traversal\<close>

text \<open>The generators are modelled by the list of the values they yield, in order.\<close>

fun traverse :: "'a AVLNode \<Rightarrow> 'a list" where
  "traverse Undefined = []"
| "traverse (Node v l r h) =
     (if l \<noteq> Undefined then traverse l else []) @ [v] @
     (if r \<noteq> Undefined then traverse r else [])"

fun traverseReversed :: "'a AVLNode \<Rightarrow> 'a list" where
  "traverseReversed Undefined = []"
| "traverseReversed (Node v l r h) =
     (if r \<noteq> Undefined then traverseReversed r else []) @ [v] @
     (if l \<noteq> Undefined then traverseReversed l else [])"

section \<open>Balance factor and rotations\<close>

fun balanceFactor :: "'a AVLNode \<Rightarrow> int" where
  "balanceFactor Undefined = 0"
| "balanceFactor (Node v l r h) = height l - height r"

text \<open>
  \<^verbatim>\<open>leftRotate\<close> reads \<^verbatim>\<open>node!.right\<close> and \<^verbatim>\<open>right!.left\<close> without a guard: on an absent
  node or an absent right child it throws. The height of \<^verbatim>\<open>node\<close> is recomputed first and
  the height of \<^verbatim>\<open>right\<close> is computed from it.
\<close>

fun leftRotate :: "'a AVLNode \<Rightarrow> 'a AVLNode option" where
  "leftRotate Undefined = None"
| "leftRotate (Node v l Undefined h) = None"
| "leftRotate (Node v l (Node rv rl rr rh) h) =
     (let node = Node v l rl (1 + max (height l) (height rl))
      in Some (Node rv node rr (1 + max (height node) (height rr))))"

fun rightRotate :: "'a AVLNode \<Rightarrow> 'a AVLNode option" where
  "rightRotate Undefined = None"
| "rightRotate (Node v Undefined r h) = None"
| "rightRotate (Node v (Node lv ll lr lh) r h) =
     (let node = Node v lr r (1 + max (height lr) (height r))
      in Some (Node lv ll node (1 + max (height ll) (height node))))"

section \<open>Insert\<close>

text \<open>
  \<^verbatim>\<open>balanceAfterInsert\<close> reads \<^verbatim>\<open>node!.left!.val\<close> and \<^verbatim>\<open>node!.right!.val\<close> without a guard.
\<close>

fun balanceAfterInsert :: "'a AVLNode \<Rightarrow> 'a \<Rightarrow> ('a \<Rightarrow> 'k::linorder) \<Rightarrow> 'a AVLNode option" where
  "balanceAfterInsert Undefined inserted key = Some Undefined"
| "balanceAfterInsert (Node v l r h) inserted key =
     (let bf = balanceFactor (Node v l r h) in
      if bf > 1 then
        (case l of
           Undefined \<Rightarrow> None
         | Node lv ll lr lh \<Rightarrow>
             if key inserted < key lv then rightRotate (Node v l r h)
             else (case leftRotate l of
                     None \<Rightarrow> None
                   | Some l' \<Rightarrow> rightRotate (Node v l' r h)))
      else if bf < - 1 then
        (case r of
           Undefined \<Rightarrow> None
         | Node rv rl rr rh \<Rightarrow>
             if key inserted > key rv then leftRotate (Node v l r h)
             else (case rightRotate r of
                     None \<Rightarrow> None
                   | Some r' \<Rightarrow> leftRotate (Node v l r' h)))
      else Some (Node v l r h))"

text \<open>
  The two tests \<^verbatim>\<open>valKey < nodeKey\<close> and \<^verbatim>\<open>valKey > nodeKey\<close> are two separate
  \<^verbatim>\<open>if\<close> statements, run one after the other; when neither holds the node keeps both
  children and its value.
\<close>

fun insert_avl :: "'a AVLNode \<Rightarrow> 'a \<Rightarrow> ('a \<Rightarrow> 'k::linorder) \<Rightarrow> 'a AVLNode option" where
  "insert_avl Undefined v key = Some (createNode v Undefined Undefined)"
| "insert_avl (Node nv l r h) v key =
     (let valKey = key v; nodeKey = key nv in
      case (if valKey < nodeKey then insert_avl l v key else Some l) of
        None \<Rightarrow> None
      | Some l' \<Rightarrow>
          (case (if valKey > nodeKey then insert_avl r v key else Some r) of
             None \<Rightarrow> None
           | Some r' \<Rightarrow>
               balanceAfterInsert (Node nv l' r' (1 + max (height l') (height r'))) v key))"

section \<open>Remove\<close>

text \<open>
  The second parameter of \<^verbatim>\<open>remove\<close> is compared with the key of the node by
  \<^verbatim>\<open>val < nodeKey\<close> and \<^verbatim>\<open>val > nodeKey\<close>. The handle passes a key. The recursive call of
  the two-children case passes \<^verbatim>\<open>temp!.val\<close>, a stored value, so the argument is either
  of the two. How JavaScript's \<^verbatim>\<open><\<close> and \<^verbatim>\<open>>\<close> compare a stored value with a key
  depends on the type of the values, which the source leaves open: it is the pair of
  parameters \<open>vlt\<close>, \<open>vgt\<close>. When the values are themselves numbers or strings they are
  \<open>(<)\<close> and \<open>(>)\<close>; a plain object against a number gives \<open>False\<close> for both.
\<close>

datatype ('a, 'k) sought = ByKey 'k | ByVal 'a

fun lessThan_js :: "('a \<Rightarrow> 'k \<Rightarrow> bool) \<Rightarrow> ('a, 'k::linorder) sought \<Rightarrow> 'k \<Rightarrow> bool" where
  "lessThan_js vlt (ByKey k) nodeKey = (k < nodeKey)"
| "lessThan_js vlt (ByVal v) nodeKey = vlt v nodeKey"

fun greaterThan_js :: "('a \<Rightarrow> 'k \<Rightarrow> bool) \<Rightarrow> ('a, 'k::linorder) sought \<Rightarrow> 'k \<Rightarrow> bool" where
  "greaterThan_js vgt (ByKey k) nodeKey = (k > nodeKey)"
| "greaterThan_js vgt (ByVal v) nodeKey = vgt v nodeKey"

fun minNodeValue :: "'a AVLNode \<Rightarrow> 'a AVLNode" where
  "minNodeValue Undefined = Undefined"
| "minNodeValue (Node v l r h) =
     (if l = Undefined then Node v l r h else minNodeValue l)"

text \<open>
  The end of \<^verbatim>\<open>remove\<close> (from the second \<^verbatim>\<open>typeof node === "undefined"\<close> test on), which
  the three branches that keep the node fall through to: the height is recomputed and
  the node rebalanced by the balance factor of its child.
\<close>

fun rebalanceAfterRemove :: "'a AVLNode \<Rightarrow> 'a AVLNode option" where
  "rebalanceAfterRemove Undefined = Some Undefined"
| "rebalanceAfterRemove (Node v l r h0) =
     (let h = 1 + max (height l) (height r);
          bf = balanceFactor (Node v l r h) in
      if bf > 1 then
        (if balanceFactor l \<ge> 0 then rightRotate (Node v l r h)
         else (case leftRotate l of
                 None \<Rightarrow> None
               | Some l' \<Rightarrow> rightRotate (Node v l' r h)))
      else if bf < - 1 then
        (if balanceFactor r \<le> 0 then leftRotate (Node v l r h)
         else (case rightRotate r of
                 None \<Rightarrow> None
               | Some r' \<Rightarrow> leftRotate (Node v l r' h)))
      else Some (Node v l r h))"

fun remove ::
  "('a \<Rightarrow> 'k \<Rightarrow> bool) \<Rightarrow> ('a \<Rightarrow> 'k \<Rightarrow> bool) \<Rightarrow>
   'a AVLNode \<Rightarrow> ('a, 'k::linorder) sought \<Rightarrow> ('a \<Rightarrow> 'k) \<Rightarrow> 'a AVLNode option" where
  "remove vlt vgt Undefined x key = Some Undefined"
| "remove vlt vgt (Node nv l r h) x key =
     (let nodeKey = key nv in
      if lessThan_js vlt x nodeKey then
        (case remove vlt vgt l x key of
           None \<Rightarrow> None
         | Some l' \<Rightarrow> rebalanceAfterRemove (Node nv l' r h))
      else if greaterThan_js vgt x nodeKey then
        (case remove vlt vgt r x key of
           None \<Rightarrow> None
         | Some r' \<Rightarrow> rebalanceAfterRemove (Node nv l r' h))
      else if l = Undefined then Some r
      else if r = Undefined then Some l
      else
        (case minNodeValue r of
           Undefined \<Rightarrow> None
         | Node tv tleft tright theight \<Rightarrow>
             (case remove vlt vgt r (ByVal tv) key of
                None \<Rightarrow> None
              | Some r' \<Rightarrow> rebalanceAfterRemove (Node tv l r' h))))"

section \<open>Lookup\<close>

fun get :: "'a AVLNode \<Rightarrow> ('a \<Rightarrow> 'k::linorder) \<Rightarrow> 'k \<Rightarrow> 'a option" where
  "get Undefined keyFn k = None"
| "get (Node nv l r h) keyFn k =
     (let nodeKey = keyFn nv in
      if k = nodeKey then Some nv
      else if k > nodeKey then get r keyFn k
      else if k < nodeKey then get l keyFn k
      else None)"

section \<open>The handle returned by \<^verbatim>\<open>AVLTree\<close>\<close>

text \<open>
  The closure variables \<^verbatim>\<open>tree\<close> and \<^verbatim>\<open>keyFn\<close> are the state of the handle. An argument
  of the constructor is a function, an iterable, or anything else (also a missing
  argument, which reads as \<^verbatim>\<open>undefined\<close>). The default key function \<^verbatim>\<open>(x) => x\<close> is the
  parameter \<open>ident\<close>: it is \<open>\<lambda>x. x\<close> when the values are their own keys.
\<close>

record ('a, 'k) handle =
  tree :: "'a AVLNode"
  keyFn :: "'a \<Rightarrow> 'k"

datatype ('a, 'k) arg = Function "'a \<Rightarrow> 'k" | Iterable "'a list" | Other

fun argAt :: "('a, 'k) arg list \<Rightarrow> nat \<Rightarrow> ('a, 'k) arg" where
  "argAt args i = (if i < length args then args ! i else Other)"

fun insertAll :: "'a AVLNode \<Rightarrow> 'a list \<Rightarrow> ('a \<Rightarrow> 'k::linorder) \<Rightarrow> 'a AVLNode option" where
  "insertAll t [] key = Some t"
| "insertAll t (item # items) key =
     (case insert_avl t item key of
        None \<Rightarrow> None
      | Some t' \<Rightarrow> insertAll t' items key)"

definition AVLTree ::
  "('a \<Rightarrow> 'k) \<Rightarrow> ('a, 'k::linorder) arg list \<Rightarrow> ('a, 'k) handle option" where
  "AVLTree ident args =
     (let keyFn0 = ident;
          keyFn1 = (case argAt args 0 of Function f \<Rightarrow> f | _ \<Rightarrow> keyFn0);
          keyFn2 = (case argAt args 1 of Function f \<Rightarrow> f | _ \<Rightarrow> keyFn1)
      in case (case argAt args 0 of
                 Iterable items \<Rightarrow> insertAll Undefined items keyFn2
               | _ \<Rightarrow> Some Undefined) of
           None \<Rightarrow> None
         | Some t \<Rightarrow> Some \<lparr>tree = t, keyFn = keyFn2\<rparr>)"

definition handle_insert :: "('a, 'k::linorder) handle \<Rightarrow> 'a \<Rightarrow> ('a, 'k) handle option" where
  "handle_insert h v =
     (case insert_avl (tree h) v (keyFn h) of
        None \<Rightarrow> None
      | Some t \<Rightarrow> Some (h\<lparr>tree := t\<rparr>))"

definition handle_get :: "('a, 'k::linorder) handle \<Rightarrow> 'k \<Rightarrow> 'a option" where
  "handle_get h k = get (tree h) (keyFn h) k"

definition handle_remove ::
  "('a \<Rightarrow> 'k \<Rightarrow> bool) \<Rightarrow> ('a \<Rightarrow> 'k \<Rightarrow> bool) \<Rightarrow>
   ('a, 'k::linorder) handle \<Rightarrow> 'k \<Rightarrow> ('a, 'k) handle option" where
  "handle_remove vlt vgt h k =
     (case remove vlt vgt (tree h) (ByKey k) (keyFn h) of
        None \<Rightarrow> None
      | Some t \<Rightarrow> Some (h\<lparr>tree := t\<rparr>))"

definition handle_iterator :: "('a, 'k) handle \<Rightarrow> 'a list" where
  "handle_iterator h = traverse (tree h)"

definition handle_reversed :: "('a, 'k) handle \<Rightarrow> 'a list" where
  "handle_reversed h = traverseReversed (tree h)"

text \<open>A finite sequence of mutating calls on the handle; an exception ends the run.\<close>

datatype ('a, 'k) operation = Insert 'a | Remove 'k

fun perform ::
  "('a \<Rightarrow> 'k \<Rightarrow> bool) \<Rightarrow> ('a \<Rightarrow> 'k \<Rightarrow> bool) \<Rightarrow>
   ('a, 'k::linorder) handle \<Rightarrow> ('a, 'k) operation \<Rightarrow> ('a, 'k) handle option" where
  "perform vlt vgt h (Insert v) = handle_insert h v"
| "perform vlt vgt h (Remove k) = handle_remove vlt vgt h k"

fun run ::
  "('a \<Rightarrow> 'k \<Rightarrow> bool) \<Rightarrow> ('a \<Rightarrow> 'k \<Rightarrow> bool) \<Rightarrow>
   ('a, 'k::linorder) handle \<Rightarrow> ('a, 'k) operation list \<Rightarrow> ('a, 'k) handle option" where
  "run vlt vgt h [] = Some h"
| "run vlt vgt h (x # xs) =
     (case perform vlt vgt h x of
        None \<Rightarrow> None
      | Some h' \<Rightarrow> run vlt vgt h' xs)"

section \<open>Invariants\<close>

text \<open>
  The balance invariant and the correctness of the cached height, at every node.
\<close>

fun avl :: "'a AVLNode \<Rightarrow> bool" where
  "avl Undefined = True"
| "avl (Node v l r h) =
     (\<bar>height l - height r\<bar> \<le> 1 \<and> h = 1 + max (height l) (height r) \<and> avl l \<and> avl r)"

text \<open>
  What \<^verbatim>\<open>insert\<close> leaves behind when it makes a subtree one higher: the root is the
  node that was there, and the side the value went to is the higher one by one. This
  is what makes the key comparison of \<^verbatim>\<open>balanceAfterInsert\<close> pick the right rotation.
\<close>

fun grown :: "('a \<Rightarrow> 'k::linorder) \<Rightarrow> 'a \<Rightarrow> 'a AVLNode \<Rightarrow> 'a AVLNode \<Rightarrow> bool" where
  "grown key v Undefined t' = True"
| "grown key v (Node nv l r h) Undefined = False"
| "grown key v (Node nv l r h) (Node nv' l' r' h') =
     (nv' = nv \<and> ((key v < key nv \<and> height l' = height r' + 1) \<or>
                 (key v > key nv \<and> height r' = height l' + 1)))"

section \<open>Order of the keys, and what the handle should hold\<close>

text \<open>
  The search-tree invariant, read off the ascending traversal: the keys of the values
  it yields are strictly increasing.
\<close>

definition ordered :: "('a \<Rightarrow> 'k::linorder) \<Rightarrow> 'a AVLNode \<Rightarrow> bool" where
  "ordered key t = sorted_wrt (<) (map key (traverse t))"

text \<open>
  The condition under which the value that \<^verbatim>\<open>remove\<close> passes to its recursive call acts
  as the key it stands for: JavaScript's \<^verbatim>\<open><\<close> and \<^verbatim>\<open>>\<close> compare a stored value with a key
  as they compare the value's own key with it. It holds for the identity key function
  on numbers or strings, and fails for \<^verbatim>\<open>x => -x\<close>.
\<close>

definition consistent ::
  "('a \<Rightarrow> 'k::linorder) \<Rightarrow> ('a \<Rightarrow> 'k \<Rightarrow> bool) \<Rightarrow> ('a \<Rightarrow> 'k \<Rightarrow> bool) \<Rightarrow> bool" where
  "consistent key vlt vgt = (\<forall>v k. vlt v k = (key v < k) \<and> vgt v k = (k < key v))"

fun soughtKey :: "('a \<Rightarrow> 'k) \<Rightarrow> ('a, 'k) sought \<Rightarrow> 'k" where
  "soughtKey key (ByKey k) = k"
| "soughtKey key (ByVal v) = key v"

text \<open>
  The ascending sequence after an insertion, on lists: the value goes to its place by
  key, and a list that already has a value with that key stays as it is.
\<close>

fun ins_list :: "('a \<Rightarrow> 'k::linorder) \<Rightarrow> 'a \<Rightarrow> 'a list \<Rightarrow> 'a list" where
  "ins_list key v [] = [v]"
| "ins_list key v (w # ws) =
     (if key v < key w then v # w # ws
      else if key v = key w then w # ws
      else w # ins_list key v ws)"

text \<open>
  The contents of the handle as the specification describes them, a map from keys to
  values: \<^verbatim>\<open>insert\<close> stores the value unless its key is taken (the first value under a
  key stays), \<^verbatim>\<open>remove\<close> clears the key. \<open>stored key ops k\<close> is what \<^verbatim>\<open>get(k)\<close> should
  return after the operations \<open>ops\<close> on an empty handle.
\<close>

fun record_op :: "('a \<Rightarrow> 'k) \<Rightarrow> ('k \<rightharpoonup> 'a) \<Rightarrow> ('a, 'k) operation \<Rightarrow> ('k \<rightharpoonup> 'a)" where
  "record_op key m (Insert v) = (if m (key v) = None then m(key v \<mapsto> v) else m)"
| "record_op key m (Remove k) = m(k := None)"

definition stored :: "('a \<Rightarrow> 'k) \<Rightarrow> ('a, 'k) operation list \<Rightarrow> ('k \<rightharpoonup> 'a)" where
  "stored key ops = foldl (record_op key) Map.empty ops"

text \<open>The tree of a handle holds exactly the map \<open>m\<close>, in order and balanced.\<close>

definition agrees :: "('a, 'k::linorder) handle \<Rightarrow> ('k \<rightharpoonup> 'a) \<Rightarrow> bool" where
  "agrees h m =
     (avl (tree h) \<and> ordered (keyFn h) (tree h) \<and>
      (\<forall>k. List.find (\<lambda>w. keyFn h w = k) (traverse (tree h)) = m k))"

text \<open>A key function under which different values share a key, for examples.\<close>

definition lastDigit :: "int \<Rightarrow> int" where
  "lastDigit x = x mod 10"

section \<open>Traversal lemmas\<close>

lemma traverse_Node [simp]: "traverse (Node v l r h) = traverse l @ v # traverse r"
  by (cases l; cases r) simp_all

lemma traverseReversed_Node [simp]:
  "traverseReversed (Node v l r h) = traverseReversed r @ v # traverseReversed l"
  by (cases l; cases r) simp_all

declare traverse.simps(2) [simp del] traverseReversed.simps(2) [simp del]

lemma traverseReversed_rev: "traverseReversed t = rev (traverse t)"
  by (induction t) simp_all

section \<open>Rebalancing after a removal keeps the invariant\<close>

lemma avl_height_ge: "avl t \<Longrightarrow> 0 \<le> height t"
  by (induction t) auto

lemma avl_height_pos: "avl (Node v l r h) \<Longrightarrow> 1 \<le> h"
  using avl_height_ge [of l] avl_height_ge [of r] by auto

lemma rebalance_balanced:
  assumes "\<bar>height l - height r\<bar> \<le> 1"
  shows "rebalanceAfterRemove (Node v l r h0) = Some (Node v l r (1 + max (height l) (height r)))"
proof -
  from assms have "\<not> 1 < height l - height r" "\<not> height l - height r < - 1" by linarith+
  then show ?thesis by (simp add: Let_def)
qed

lemma rebalance_left_heavy:
  assumes "avl l" "avl r" "height l = height r + 2"
  shows "\<exists>t'. rebalanceAfterRemove (Node v l r h0) = Some t' \<and> avl t' \<and>
           (height t' = height l \<or> height t' = height l + 1)"
proof (cases l)
  case Undefined
  with assms avl_height_ge [of r] show ?thesis by simp
next
  case (Node lv ll lr lh)
  note l = Node
  show ?thesis
  proof (cases "0 \<le> height ll - height lr")
    case True
    with assms l show ?thesis by (auto simp: Let_def max_def)
  next
    case False
    with assms l avl_height_ge [of ll] have "lr \<noteq> Undefined" by auto
    then obtain lrv lrl lrr lrh where lr: "lr = Node lrv lrl lrr lrh" by (cases lr) auto
    with False assms l show ?thesis by (auto simp: Let_def max_def split: if_splits)
  qed
qed

lemma rebalance_right_heavy:
  assumes "avl l" "avl r" "height r = height l + 2"
  shows "\<exists>t'. rebalanceAfterRemove (Node v l r h0) = Some t' \<and> avl t' \<and>
           (height t' = height r \<or> height t' = height r + 1)"
proof (cases r)
  case Undefined
  with assms avl_height_ge [of l] show ?thesis by simp
next
  case (Node rv rl rr rh)
  note r = Node
  show ?thesis
  proof (cases "height rl - height rr \<le> 0")
    case True
    with assms r show ?thesis by (auto simp: Let_def max_def)
  next
    case False
    with assms r avl_height_ge [of rr] have "rl \<noteq> Undefined" by auto
    then obtain rlv rll rlr rlh where rl: "rl = Node rlv rll rlr rlh" by (cases rl) auto
    with False assms r show ?thesis by (auto simp: Let_def max_def split: if_splits)
  qed
qed

lemma rebalance_avl:
  assumes "avl l" "avl r" "\<bar>height l - height r\<bar> \<le> 2"
  shows "\<exists>t'. rebalanceAfterRemove (Node v l r h0) = Some t' \<and> avl t' \<and>
           (height t' = 1 + max (height l) (height r) \<or>
            (\<bar>height l - height r\<bar> = 2 \<and> height t' = max (height l) (height r)))"
proof -
  consider "\<bar>height l - height r\<bar> \<le> 1" | "height l = height r + 2" | "height r = height l + 2"
    using assms(3) by linarith
  then show ?thesis
  proof cases
    case 1
    with assms rebalance_balanced [OF 1, of v h0] show ?thesis by simp
  next
    case 2
    from rebalance_left_heavy [OF assms(1,2) 2, of v h0] 2 show ?thesis by auto
  next
    case 3
    from rebalance_right_heavy [OF assms(1,2) 3, of v h0] 3 show ?thesis by auto
  qed
qed

lemma minNodeValue_Node: "t \<noteq> Undefined \<Longrightarrow> \<exists>v l r h. minNodeValue t = Node v l r h"
  by (induction t) auto

lemma remove_avl:
  "avl t \<Longrightarrow> \<exists>t'. remove vlt vgt t x key = Some t' \<and> avl t' \<and>
       (height t' = height t \<or> height t' = height t - 1)"
proof (induction t arbitrary: x)
  case Undefined
  then show ?case by simp
next
  case (Node nv l r h)
  from Node.prems have al: "avl l" and ar: "avl r" and bal: "\<bar>height l - height r\<bar> \<le> 1"
    and h: "h = 1 + max (height l) (height r)" by auto
  have left: "\<exists>t'. (case remove vlt vgt l y key of None \<Rightarrow> None
                 | Some l' \<Rightarrow> rebalanceAfterRemove (Node w l' r h)) = Some t' \<and> avl t' \<and>
       (height t' = h \<or> height t' = h - 1)" for y w
  proof -
    from Node.IH(1) [OF al, of y] obtain l' where l': "remove vlt vgt l y key = Some l'"
      "avl l'" "height l' = height l \<or> height l' = height l - 1" by blast
    from l' bal have "\<bar>height l' - height r\<bar> \<le> 2" by linarith
    from rebalance_avl [OF l'(2) ar this, of w h] l' bal h show ?thesis
      by (auto simp: max_def split: if_splits)
  qed
  have right: "\<exists>t'. (case remove vlt vgt r y key of None \<Rightarrow> None
                 | Some r' \<Rightarrow> rebalanceAfterRemove (Node w l r' h)) = Some t' \<and> avl t' \<and>
       (height t' = h \<or> height t' = h - 1)" for y w
  proof -
    from Node.IH(2) [OF ar, of y] obtain r' where r': "remove vlt vgt r y key = Some r'"
      "avl r'" "height r' = height r \<or> height r' = height r - 1" by blast
    from r' bal have "\<bar>height l - height r'\<bar> \<le> 2" by linarith
    from rebalance_avl [OF al r'(2) this, of w h] r' bal h show ?thesis
      by (auto simp: max_def split: if_splits)
  qed
  show ?case
  proof (cases "lessThan_js vlt x (key nv)")
    case True
    with left [where y = x and w = nv] show ?thesis by (simp add: Let_def)
  next
    case nlt: False
    show ?thesis
    proof (cases "greaterThan_js vgt x (key nv)")
      case True
      with nlt right [where y = x and w = nv] show ?thesis by (simp add: Let_def)
    next
      case ngt: False
      show ?thesis
      proof (cases "l = Undefined")
        case True
        with nlt ngt ar bal h avl_height_ge [of r] show ?thesis by (auto simp: Let_def max_def)
      next
        case lN: False
        show ?thesis
        proof (cases "r = Undefined")
          case True
          with nlt ngt lN al bal h avl_height_ge [of l] show ?thesis by (auto simp: Let_def max_def)
        next
          case rN: False
          from minNodeValue_Node [OF rN] obtain tv tl tr th where
            m: "minNodeValue r = Node tv tl tr th" by blast
          with nlt ngt lN rN right [where y = "ByVal tv" and w = tv] show ?thesis by (simp add: Let_def)
        qed
      qed
    qed
  qed
qed

section \<open>Rebalancing after an insertion keeps the invariant\<close>

lemma insert_avl_Node:
  "insert_avl (Node nv l r h) v key =
     (if key v < key nv then
        (case insert_avl l v key of None \<Rightarrow> None
         | Some l' \<Rightarrow> balanceAfterInsert (Node nv l' r (1 + max (height l') (height r))) v key)
      else if key v > key nv then
        (case insert_avl r v key of None \<Rightarrow> None
         | Some r' \<Rightarrow> balanceAfterInsert (Node nv l r' (1 + max (height l) (height r'))) v key)
      else balanceAfterInsert (Node nv l r (1 + max (height l) (height r))) v key)"
  by (auto simp: Let_def split: option.splits)

lemma balanceAfterInsert_balanced:
  assumes "\<bar>height l - height r\<bar> \<le> 1"
  shows "balanceAfterInsert (Node v l r h) x key = Some (Node v l r h)"
proof -
  from assms have "\<not> 1 < height l - height r" "\<not> height l - height r < - 1" by linarith+
  then show ?thesis by (simp add: Let_def)
qed

lemma balanceAfterInsert_left:
  assumes "avl (Node lv ll lr lh)" "avl r" "lh = height r + 2"
    and "(key x < key lv \<and> height ll = height lr + 1) \<or>
         (key x > key lv \<and> height lr = height ll + 1)"
  shows "\<exists>t'. balanceAfterInsert (Node v (Node lv ll lr lh) r h) x key = Some t' \<and> avl t' \<and>
           height t' = lh"
proof (cases "key x < key lv")
  case True
  with assms show ?thesis by (auto simp: Let_def max_def split: if_splits)
next
  case False
  with assms have gt: "key x > key lv" and hh: "height lr = height ll + 1" by auto
  from assms(1) hh avl_height_ge [of ll] have "lr \<noteq> Undefined" by auto
  then obtain lrv lrl lrr lrh where lr: "lr = Node lrv lrl lrr lrh" by (cases lr) auto
  with False hh assms(1,2,3) show ?thesis by (auto simp: Let_def max_def split: if_splits)
qed

lemma balanceAfterInsert_right:
  assumes "avl l" "avl (Node rv rl rr rh)" "rh = height l + 2"
    and "(key x < key rv \<and> height rl = height rr + 1) \<or>
         (key x > key rv \<and> height rr = height rl + 1)"
  shows "\<exists>t'. balanceAfterInsert (Node v l (Node rv rl rr rh) h) x key = Some t' \<and> avl t' \<and>
           height t' = rh"
proof (cases "key x > key rv")
  case True
  with assms show ?thesis by (auto simp: Let_def max_def split: if_splits)
next
  case False
  with assms have lt: "key x < key rv" and hh: "height rl = height rr + 1" by auto
  from assms(2) hh avl_height_ge [of rr] have "rl \<noteq> Undefined" by auto
  then obtain rlv rll rlr rlh where rl: "rl = Node rlv rll rlr rlh" by (cases rl) auto
  with False hh assms(1,2,3) show ?thesis by (auto simp: Let_def max_def split: if_splits)
qed

declare insert_avl.simps(2) [simp del] balanceAfterInsert.simps(2) [simp del]

lemma insert_avl_grown:
  "avl t \<Longrightarrow> \<exists>t'. insert_avl t v key = Some t' \<and> avl t' \<and>
       (height t' = height t \<or> (height t' = height t + 1 \<and> grown key v t t'))"
proof (induction t)
  case Undefined
  then show ?case by (simp add: createNode_def)
next
  case (Node nv l r h)
  from Node.prems have al: "avl l" and ar: "avl r" and bal: "\<bar>height l - height r\<bar> \<le> 1"
    and h: "h = 1 + max (height l) (height r)" by auto
  show ?case
  proof (cases "key v < key nv")
    case lt: True
    from Node.IH(1) [OF al] obtain l' where l': "insert_avl l v key = Some l'" "avl l'"
      "height l' = height l \<or> (height l' = height l + 1 \<and> grown key v l l')" by blast
    show ?thesis
    proof (cases "\<bar>height l' - height r\<bar> \<le> 1")
      case True
      have "insert_avl (Node nv l r h) v key =
          Some (Node nv l' r (1 + max (height l') (height r)))"
        using lt l'(1) by (simp add: insert_avl_Node balanceAfterInsert_balanced [OF True])
      with lt l' ar True bal h show ?thesis
        by (auto simp: max_def split: if_splits)
    next
      case False
      with l' bal have hl: "height l' = height r + 2" "height l' = height l + 1"
        and g: "grown key v l l'" by auto
      from hl avl_height_ge [OF ar] l'(2) obtain lv ll lr lh where
        l'N: "l' = Node lv ll lr lh" by (cases l') auto
      from hl avl_height_ge [OF ar] al have "l \<noteq> Undefined" using l'N l'(2)
        by (cases l) auto
      then obtain lv0 ll0 lr0 lh0 where lN: "l = Node lv0 ll0 lr0 lh0" by (cases l) auto
      from g l'N lN have c: "(key v < key lv \<and> height ll = height lr + 1) \<or>
         (key v > key lv \<and> height lr = height ll + 1)" by auto
      from l'(2) l'N have a1: "avl (Node lv ll lr lh)" by simp
      from hl l'N have a3: "lh = height r + 2" by simp
      have step: "insert_avl (Node nv l r h) v key =
          balanceAfterInsert (Node nv l' r (1 + max (height l') (height r))) v key"
        using lt l'(1) by (simp add: insert_avl_Node)
      from balanceAfterInsert_left [OF a1 ar a3 c, of nv "1 + max (height l') (height r)"]
      obtain t' where t': "balanceAfterInsert (Node nv l' r (1 + max (height l') (height r))) v key
          = Some t'" "avl t'" "height t' = lh" unfolding l'N by blast
      from hl a3 h have "lh = h" by simp
      with step t' show ?thesis by simp
    qed
  next
    case nlt: False
    show ?thesis
    proof (cases "key v > key nv")
      case gt: True
      from Node.IH(2) [OF ar] obtain r' where r': "insert_avl r v key = Some r'" "avl r'"
        "height r' = height r \<or> (height r' = height r + 1 \<and> grown key v r r')" by blast
      show ?thesis
      proof (cases "\<bar>height l - height r'\<bar> \<le> 1")
        case True
        have "insert_avl (Node nv l r h) v key =
            Some (Node nv l r' (1 + max (height l) (height r')))"
          using nlt gt r'(1) by (simp add: insert_avl_Node balanceAfterInsert_balanced [OF True])
        with gt r' al True bal h show ?thesis
          by (auto simp: max_def split: if_splits)
      next
        case False
        with r' bal have hr: "height r' = height l + 2" "height r' = height r + 1"
          and g: "grown key v r r'" by auto
        from hr avl_height_ge [OF al] r'(2) obtain rv rl rr rh where
          r'N: "r' = Node rv rl rr rh" by (cases r') auto
        from hr avl_height_ge [OF al] ar have "r \<noteq> Undefined" using r'N r'(2)
          by (cases r) auto
        then obtain rv0 rl0 rr0 rh0 where rN: "r = Node rv0 rl0 rr0 rh0" by (cases r) auto
        from g r'N rN have c: "(key v < key rv \<and> height rl = height rr + 1) \<or>
           (key v > key rv \<and> height rr = height rl + 1)" by auto
        from r'(2) r'N have a2: "avl (Node rv rl rr rh)" by simp
        from hr r'N have a3: "rh = height l + 2" by simp
        have step: "insert_avl (Node nv l r h) v key =
            balanceAfterInsert (Node nv l r' (1 + max (height l) (height r'))) v key"
          using nlt gt r'(1) by (simp add: insert_avl_Node)
        from balanceAfterInsert_right [OF al a2 a3 c, of nv "1 + max (height l) (height r')"]
        obtain t' where t': "balanceAfterInsert (Node nv l r' (1 + max (height l) (height r'))) v key
            = Some t'" "avl t'" "height t' = rh" unfolding r'N by blast
        from hr a3 h have "rh = h" by simp
        with step t' show ?thesis by simp
      qed
    next
      case False
      with nlt have "insert_avl (Node nv l r h) v key = Some (Node nv l r h)"
        by (simp add: insert_avl_Node balanceAfterInsert_balanced [OF bal] h)
      with Node.prems show ?thesis by simp
    qed
  qed
qed

section \<open>Sequences of operations on the handle\<close>

lemma handle_insert_avl:
  assumes "avl (tree h)"
  shows "\<exists>h'. handle_insert h v = Some h' \<and> avl (tree h') \<and> keyFn h' = keyFn h"
proof -
  from insert_avl_grown [OF assms, of v "keyFn h"] obtain t' where
    "insert_avl (tree h) v (keyFn h) = Some t'" "avl t'" by blast
  then show ?thesis by (simp add: handle_insert_def)
qed

lemma handle_remove_avl:
  assumes "avl (tree h)"
  shows "\<exists>h'. handle_remove vlt vgt h k = Some h' \<and> avl (tree h') \<and> keyFn h' = keyFn h"
proof -
  from remove_avl [OF assms, of vlt vgt "ByKey k" "keyFn h"] obtain t' where
    "remove vlt vgt (tree h) (ByKey k) (keyFn h) = Some t'" "avl t'" by blast
  then show ?thesis by (simp add: handle_remove_def)
qed

lemma perform_avl:
  "avl (tree h) \<Longrightarrow>
   \<exists>h'. perform vlt vgt h x = Some h' \<and> avl (tree h') \<and> keyFn h' = keyFn h"
  by (cases x) (simp_all add: handle_insert_avl handle_remove_avl)

lemma run_avl:
  "avl (tree h) \<Longrightarrow>
   \<exists>h'. run vlt vgt h xs = Some h' \<and> avl (tree h') \<and> keyFn h' = keyFn h"
proof (induction xs arbitrary: h)
  case Nil
  then show ?case by simp
next
  case (Cons x xs)
  from perform_avl [OF Cons.prems, of vlt vgt x] obtain h1 where
    h1: "perform vlt vgt h x = Some h1" "avl (tree h1)" "keyFn h1 = keyFn h" by blast
  from Cons.IH [OF h1(2)] h1 show ?case by auto
qed

text \<open>
  Claim C1. After any finite sequence of \<^verbatim>\<open>insert\<close> and \<^verbatim>\<open>remove\<close> calls on the handle,
  starting from the empty tree, the calls have all returned, and at every node of the
  tree the heights of the two subtrees differ by at most one and the cached height is
  one more than the larger of them. This holds for every key function and however
  a stored value compares with a key.
\<close>

theorem invariant_preservation:
  "\<exists>h. run vlt vgt \<lparr>tree = Undefined, keyFn = key\<rparr> ops = Some h \<and> avl (tree h)"
  using run_avl [of "\<lparr>tree = Undefined, keyFn = key\<rparr>" vlt vgt ops] by auto

lemma leftRotate_None:
  "leftRotate t = None \<longleftrightarrow> (case t of Undefined \<Rightarrow> True | Node v l r h \<Rightarrow> r = Undefined)"
  by (cases t rule: leftRotate.cases) (simp_all add: Let_def)

lemma rightRotate_None:
  "rightRotate t = None \<longleftrightarrow> (case t of Undefined \<Rightarrow> True | Node v l r h \<Rightarrow> l = Undefined)"
  by (cases t rule: rightRotate.cases) (simp_all add: Let_def)

text \<open>
  Claim C8. On every tree the handle can reach, \<^verbatim>\<open>insert\<close> and \<^verbatim>\<open>remove\<close> return a
  tree: no rotation they invoke (the inner one of a double rotation included) is
  applied to a node whose required child is absent, and the unguarded reads of
  \<^verbatim>\<open>node.left\<close>, \<^verbatim>\<open>node.right\<close> and \<^verbatim>\<open>temp\<close> find a node. In the model each of these
  reads on an absent node is the result \<open>None\<close>, which every caller passes on.
\<close>

theorem rotations_never_read_absent_node:
  "\<exists>h. run vlt vgt \<lparr>tree = Undefined, keyFn = key\<rparr> ops = Some h \<and>
       (\<exists>t'. insert_avl (tree h) v key = Some t') \<and>
       (\<exists>t'. remove vlt vgt (tree h) x key = Some t')"
proof -
  from run_avl [of "\<lparr>tree = Undefined, keyFn = key\<rparr>" vlt vgt ops] obtain h where
    h: "run vlt vgt \<lparr>tree = Undefined, keyFn = key\<rparr> ops = Some h" "avl (tree h)" by auto
  from insert_avl_grown [OF h(2), of v key] remove_avl [OF h(2), of vlt vgt x key] h(1)
  show ?thesis by blast
qed

text \<open>
  Claim C7. On a node whose right child is present \<^verbatim>\<open>leftRotate\<close> returns the right
  child as the new root, with the same in-order sequence of values; \<^verbatim>\<open>rightRotate\<close>
  does the same on a node whose left child is present. The heights of the two nodes
  involved are recomputed, the old root (now the child) first and the new root from
  it; the three subtrees hanging below are not touched.
\<close>

theorem rotations_preserve_inorder:
  "(\<exists>n' h'. leftRotate (Node v l (Node rv rl rr rh) h) = Some (Node rv (Node v l rl n') rr h') \<and>
       n' = 1 + max (height l) (height rl) \<and> h' = 1 + max n' (height rr) \<and>
       traverse (Node rv (Node v l rl n') rr h') = traverse (Node v l (Node rv rl rr rh) h)) \<and>
   (\<exists>n' h'. rightRotate (Node v (Node lv ll lr lh) r h) = Some (Node lv ll (Node v lr r n') h') \<and>
       n' = 1 + max (height lr) (height r) \<and> h' = 1 + max (height ll) n' \<and>
       traverse (Node lv ll (Node v lr r n') h') = traverse (Node v (Node lv ll lr lh) r h))"
  by (simp add: Let_def)

lemma insertAll_run:
  "map_option (\<lambda>t. \<lparr>tree = t, keyFn = key\<rparr>) (insertAll t items key) =
   run vlt vgt \<lparr>tree = t, keyFn = key\<rparr> (map Insert items)"
  by (induction items arbitrary: t) (auto simp: handle_insert_def split: option.splits)

text \<open>
  Claim C9. \<^verbatim>\<open>AVLTree(items)\<close> with no key function gives the handle keyed by the
  identity that inserting the items one by one, in iteration order, into an empty
  handle gives; for \<^verbatim>\<open>[1, 2, 3, 4]\<close> the ascending traversal is \<^verbatim>\<open>[1, 2, 3, 4]\<close> and the
  descending one \<^verbatim>\<open>[4, 3, 2, 1]\<close>.
\<close>

theorem construct_from_iterable:
  "AVLTree (\<lambda>x. x) [Iterable items] =
     run vlt vgt \<lparr>tree = Undefined, keyFn = (\<lambda>x. x)\<rparr> (map Insert items) \<and>
   map_option handle_iterator (AVLTree (\<lambda>x. x) [Iterable [1, 2, 3, 4 :: int]]) = Some [1, 2, 3, 4] \<and>
   map_option handle_reversed (AVLTree (\<lambda>x. x) [Iterable [1, 2, 3, 4 :: int]]) = Some [4, 3, 2, 1]"
proof -
  have 0: "AVLTree (\<lambda>x. x) [Iterable xs] =
      map_option (\<lambda>t. \<lparr>tree = t, keyFn = (\<lambda>x. x)\<rparr>) (insertAll Undefined xs (\<lambda>x. x))"
    for xs :: "'c::linorder list"
    by (simp add: AVLTree_def Let_def split: option.splits)
  have 1: "AVLTree (\<lambda>x. x) [Iterable items] =
     run vlt vgt \<lparr>tree = Undefined, keyFn = (\<lambda>x. x)\<rparr> (map Insert items)"
    unfolding 0 by (rule insertAll_run)
  have 2: "insertAll Undefined [1, 2, 3, 4 :: int] (\<lambda>x. x) =
     Some (Node 2 (Node 1 Undefined Undefined 1)
                  (Node 3 Undefined (Node 4 Undefined Undefined 1) 2) 3)"
    by (simp add: insert_avl_Node createNode_def balanceAfterInsert.simps Let_def)
  have 3: "map_option handle_iterator (AVLTree (\<lambda>x. x) [Iterable [1, 2, 3, 4 :: int]]) = Some [1, 2, 3, 4]"
    unfolding 0 2 by (simp add: handle_iterator_def)
  have 4: "map_option handle_reversed (AVLTree (\<lambda>x. x) [Iterable [1, 2, 3, 4 :: int]]) = Some [4, 3, 2, 1]"
    unfolding 0 2 by (simp add: handle_reversed_def)
  from 1 3 4 show ?thesis by blast
qed

text \<open>
  Claim C10. \<^verbatim>\<open>AVLTree()\<close> with no argument returns a handle: the tree is empty and
  the key function is the identity, the same handle as the one built from an empty
  iterable. On it \<^verbatim>\<open>get\<close> finds nothing, both traversals are empty, \<^verbatim>\<open>remove\<close> changes
  nothing and \<^verbatim>\<open>insert\<close> gives the one-node tree.
\<close>

theorem construct_without_arguments:
  "AVLTree (\<lambda>x. x) [] = Some \<lparr>tree = Undefined, keyFn = (\<lambda>x. x)\<rparr> \<and>
   AVLTree (\<lambda>x. x) [] = AVLTree (\<lambda>x. x) [Iterable []] \<and>
   (\<exists>h. AVLTree (\<lambda>x. x) [] = Some h \<and>
        handle_get h k = None \<and>
        handle_iterator h = [] \<and>
        handle_reversed h = [] \<and>
        handle_remove vlt vgt h k = Some h \<and>
        handle_insert h v = Some \<lparr>tree = Node v Undefined Undefined 1, keyFn = (\<lambda>x. x)\<rparr>)"
  by (simp add: AVLTree_def Let_def handle_get_def handle_iterator_def handle_reversed_def
      handle_remove_def handle_insert_def createNode_def)

section \<open>Inserting under a key that is already there\<close>

lemma insert_avl_present:
  "avl t \<Longrightarrow> get t key (key v) = Some w \<Longrightarrow> insert_avl t v key = Some t"
proof (induction t)
  case Undefined
  then show ?case by simp
next
  case (Node nv l r h)
  from Node.prems(1) have al: "avl l" and ar: "avl r" and bal: "\<bar>height l - height r\<bar> \<le> 1"
    and h: "h = 1 + max (height l) (height r)" by auto
  note same = balanceAfterInsert_balanced [OF bal, of nv h v key]
  consider "key v = key nv" | "key v > key nv" | "key v < key nv" by fastforce
  then show ?case
  proof cases
    case 1
    with same h show ?thesis by (simp add: insert_avl_Node)
  next
    case 2
    with Node.prems(2) have "get r key (key v) = Some w" by (auto simp: Let_def split: if_splits)
    moreover from 2 have "\<not> key v < key nv" by simp
    ultimately show ?thesis using Node.IH(2) [OF ar] 2 same h by (simp add: insert_avl_Node)
  next
    case 3
    with Node.prems(2) have "get l key (key v) = Some w" by (auto simp: Let_def split: if_splits)
    from Node.IH(1) [OF al this] 3 same h show ?thesis by (simp add: insert_avl_Node)
  qed
qed

text \<open>
  Claim C5. On a handle reached by any sequence of operations, when \<^verbatim>\<open>get\<close> finds a value
  under the key of \<open>v\<close>, \<^verbatim>\<open>insert(v)\<close> returns and leaves the handle as it was: the same
  nodes with the same values and heights, hence the same result of \<^verbatim>\<open>get\<close> and the
  same traversal. Nothing is replaced and nothing is raised.
\<close>

theorem duplicate_key_insert_noop:
  assumes "run vlt vgt \<lparr>tree = Undefined, keyFn = key\<rparr> ops = Some h"
    and "handle_get h (key v) = Some w"
  shows "handle_insert h v = Some h"
proof -
  from run_avl [of "\<lparr>tree = Undefined, keyFn = key\<rparr>" vlt vgt ops] assms(1)
  have a: "avl (tree h)" and k: "keyFn h = key" by auto
  from assms(2) k have "get (tree h) key (key v) = Some w" by (simp add: handle_get_def)
  from insert_avl_present [OF a this] k show ?thesis by (simp add: handle_insert_def)
qed

text \<open>The equations that evaluate the operations on a concrete tree.\<close>

lemmas eval_simps = insert_avl_Node balanceAfterInsert.simps(2) createNode_def Let_def
  handle_insert_def handle_remove_def handle_get_def handle_iterator_def handle_reversed_def

text \<open>
  The values 2 and 12 have the same key under \<open>lastDigit\<close>; inserting 12 into the tree
  that holds 1 and 2 changes nothing.
\<close>

theorem duplicate_key_insert_noop_witness:
  "run (<) (>) \<lparr>tree = Undefined, keyFn = lastDigit\<rparr> [Insert 1, Insert 2] =
     Some \<lparr>tree = Node 1 Undefined (Node 2 Undefined Undefined 1) 2, keyFn = lastDigit\<rparr> \<and>
   handle_get \<lparr>tree = Node 1 Undefined (Node 2 Undefined Undefined 1) 2, keyFn = lastDigit\<rparr>
     (lastDigit 12) = Some 2 \<and>
   handle_insert \<lparr>tree = Node 1 Undefined (Node 2 Undefined Undefined 1) 2, keyFn = lastDigit\<rparr> 12 =
     Some \<lparr>tree = Node 1 Undefined (Node 2 Undefined Undefined 1) 2, keyFn = lastDigit\<rparr>"
proof -
  have r: "run (<) (>) \<lparr>tree = Undefined, keyFn = lastDigit\<rparr> [Insert 1, Insert 2] =
     Some \<lparr>tree = Node 1 Undefined (Node 2 Undefined Undefined 1) 2, keyFn = lastDigit\<rparr>"
    by (simp add: eval_simps lastDigit_def)
  have g: "handle_get \<lparr>tree = Node 1 Undefined (Node 2 Undefined Undefined 1) 2, keyFn = lastDigit\<rparr>
     (lastDigit 12) = Some 2"
    by (simp add: eval_simps lastDigit_def)
  from duplicate_key_insert_noop [OF r g] r g show ?thesis by simp
qed

section \<open>The concrete scenarios of the specification\<close>

text \<open>
  Inserting 10, 20, 30 takes a single left rotation, 30, 20, 10 a single right one and
  30, 10, 20 a left-right double rotation; each ends with 20 at the root. Removing 3
  from the tree built from 5, 3, 8, 2, 4, 7, 9 puts its successor 4 in its place.
\<close>

lemma scenario_single_left_rotation:
  "insertAll Undefined [10, 20, 30 :: int] (\<lambda>x. x) =
     Some (Node 20 (Node 10 Undefined Undefined 1) (Node 30 Undefined Undefined 1) 2)"
  by (simp add: eval_simps)

lemma scenario_single_right_rotation:
  "insertAll Undefined [30, 20, 10 :: int] (\<lambda>x. x) =
     Some (Node 20 (Node 10 Undefined Undefined 1) (Node 30 Undefined Undefined 1) 2)"
  by (simp add: eval_simps)

lemma scenario_left_right_rotation:
  "insertAll Undefined [30, 10, 20 :: int] (\<lambda>x. x) =
     Some (Node 20 (Node 10 Undefined Undefined 1) (Node 30 Undefined Undefined 1) 2)"
  by (simp add: eval_simps)

lemma scenario_remove_two_children:
  "\<exists>h h'. AVLTree (\<lambda>x. x) [Iterable [5, 3, 8, 2, 4, 7, 9 :: int]] = Some h \<and>
       handle_remove (<) (>) h 3 = Some h' \<and>
       handle_iterator h' = [2, 4, 5, 7, 8, 9] \<and> avl (tree h')"
  by (simp add: AVLTree_def eval_simps)

section \<open>Rebalancing keeps the in-order sequence\<close>

lemma leftRotate_traverse: "leftRotate t = Some t' \<Longrightarrow> traverse t' = traverse t"
  by (cases t rule: leftRotate.cases) (auto simp: Let_def)

lemma rightRotate_traverse: "rightRotate t = Some t' \<Longrightarrow> traverse t' = traverse t"
  by (cases t rule: rightRotate.cases) (auto simp: Let_def)

lemma balanceAfterInsert_traverse:
  "balanceAfterInsert t x key = Some t' \<Longrightarrow> traverse t' = traverse t"
proof (cases t)
  case Undefined
  then show "balanceAfterInsert t x key = Some t' \<Longrightarrow> traverse t' = traverse t" by simp
next
  case (Node v l r h)
  assume "balanceAfterInsert t x key = Some t'"
  with Node show "traverse t' = traverse t"
    by (auto simp: balanceAfterInsert.simps(2) Let_def
        split: if_splits AVLNode.splits option.splits
        dest!: leftRotate_traverse rightRotate_traverse)
qed

lemma rebalanceAfterRemove_traverse:
  "rebalanceAfterRemove t = Some t' \<Longrightarrow> traverse t' = traverse t"
proof (cases t)
  case Undefined
  then show "rebalanceAfterRemove t = Some t' \<Longrightarrow> traverse t' = traverse t" by simp
next
  case (Node v l r h)
  assume "rebalanceAfterRemove t = Some t'"
  with Node show "traverse t' = traverse t"
    by (auto simp: Let_def split: if_splits option.splits
        dest!: leftRotate_traverse rightRotate_traverse)
qed

section \<open>Insert, remove and get on ordered trees\<close>

lemma ordered_Node:
  "ordered key (Node v l r h) \<longleftrightarrow>
     ordered key l \<and> ordered key r \<and>
     (\<forall>a \<in> set (traverse l). key a < key v) \<and> (\<forall>b \<in> set (traverse r). key v < key b)"
  by (auto simp: ordered_def sorted_wrt_append intro: less_trans)

lemma ins_list_left:
  "key v < key w \<Longrightarrow> ins_list key v (xs @ w # ys) = ins_list key v xs @ w # ys"
  by (induction xs) auto

lemma ins_list_right:
  "\<forall>a \<in> set xs. key a < key v \<Longrightarrow> ins_list key v (xs @ ys) = xs @ ins_list key v ys"
  by (induction xs) auto

lemma set_ins_list: "set (ins_list key v xs) \<subseteq> insert v (set xs)"
  by (induction xs) auto

lemma sorted_ins_list:
  "sorted_wrt (<) (map key xs) \<Longrightarrow> sorted_wrt (<) (map key (ins_list key v xs))"
proof (induction xs)
  case Nil
  then show ?case by simp
next
  case (Cons w ws)
  then show ?case using set_ins_list [of key v ws] by (auto simp: subset_iff)
qed

lemma insert_avl_traverse:
  "ordered key t \<Longrightarrow> insert_avl t v key = Some t' \<Longrightarrow>
   traverse t' = ins_list key v (traverse t)"
proof (induction t arbitrary: t')
  case Undefined
  then show ?case by (auto simp: createNode_def)
next
  case (Node nv l r h)
  from Node.prems(1) have ol: "ordered key l" and or: "ordered key r"
    and lo: "\<forall>a \<in> set (traverse l). key a < key nv"
    and hi: "\<forall>b \<in> set (traverse r). key nv < key b" by (simp_all add: ordered_Node)
  consider "key v < key nv" | "key v > key nv" | "key v = key nv" by fastforce
  then show ?case
  proof cases
    case 1
    with Node.prems(2) obtain l' where l': "insert_avl l v key = Some l'"
      and b: "balanceAfterInsert (Node nv l' r (1 + max (height l') (height r))) v key = Some t'"
      by (auto simp: insert_avl_Node split: option.splits)
    from balanceAfterInsert_traverse [OF b] Node.IH(1) [OF ol l'] 1 show ?thesis
      by (simp add: ins_list_left)
  next
    case 2
    then have n: "\<not> key v < key nv" "key v \<noteq> key nv" by auto
    with 2 Node.prems(2) obtain r' where r': "insert_avl r v key = Some r'"
      and b: "balanceAfterInsert (Node nv l r' (1 + max (height l) (height r'))) v key = Some t'"
      by (auto simp: insert_avl_Node split: option.splits)
    from lo 2 have "\<forall>a \<in> set (traverse l). key a < key v" by auto
    from balanceAfterInsert_traverse [OF b] Node.IH(2) [OF or r'] n ins_list_right [OF this]
    show ?thesis by simp
  next
    case 3
    with Node.prems(2) have
      b: "balanceAfterInsert (Node nv l r (1 + max (height l) (height r))) v key = Some t'"
      by (simp add: insert_avl_Node)
    from lo 3 have "\<forall>a \<in> set (traverse l). key a < key v" by auto
    from balanceAfterInsert_traverse [OF b] 3 ins_list_right [OF this] show ?thesis by simp
  qed
qed

lemma insert_avl_ordered:
  "ordered key t \<Longrightarrow> insert_avl t v key = Some t' \<Longrightarrow> ordered key t'"
  using insert_avl_traverse [of key t v t'] sorted_ins_list [of key "traverse t" v]
  by (simp add: ordered_def)

lemma minNodeValue_traverse:
  "minNodeValue t = Node tv tleft tright theight \<Longrightarrow> \<exists>rest. traverse t = tv # rest"
  by (induction t) (auto split: if_splits)

lemma remove_traverse:
  assumes "consistent key vlt vgt"
  shows "ordered key t \<Longrightarrow> remove vlt vgt t x key = Some t' \<Longrightarrow>
     traverse t' = filter (\<lambda>w. key w \<noteq> soughtKey key x) (traverse t)"
proof (induction t arbitrary: x t')
  case Undefined
  then show ?case by simp
next
  case (Node nv l r h)
  from assms have lt: "lessThan_js vlt y k = (soughtKey key y < k)"
    and gt: "greaterThan_js vgt y k = (k < soughtKey key y)" for y k
    by (cases y; simp add: consistent_def)+
  from Node.prems(1) have ol: "ordered key l" and or: "ordered key r"
    and lo: "\<forall>a \<in> set (traverse l). key a < key nv"
    and hi: "\<forall>b \<in> set (traverse r). key nv < key b" by (simp_all add: ordered_Node)
  let ?k = "soughtKey key x"
  consider "?k < key nv" | "key nv < ?k" | "?k = key nv" by fastforce
  then show ?case
  proof cases
    case 1
    with Node.prems(2) obtain l' where l': "remove vlt vgt l x key = Some l'"
      and b: "rebalanceAfterRemove (Node nv l' r h) = Some t'"
      by (auto simp: lt gt Let_def split: option.splits)
    from 1 hi have "\<forall>b \<in> set (traverse r). key b \<noteq> ?k" by auto
    with rebalanceAfterRemove_traverse [OF b] Node.IH(1) [OF ol l'] 1 show ?thesis by auto
  next
    case 2
    then have n: "\<not> ?k < key nv" by simp
    with 2 Node.prems(2) obtain r' where r': "remove vlt vgt r x key = Some r'"
      and b: "rebalanceAfterRemove (Node nv l r' h) = Some t'"
      by (auto simp: lt gt Let_def split: option.splits)
    from 2 lo have "\<forall>a \<in> set (traverse l). key a \<noteq> ?k" by auto
    with rebalanceAfterRemove_traverse [OF b] Node.IH(2) [OF or r'] 2 show ?thesis by auto
  next
    case 3
    from 3 lo have fl: "filter (\<lambda>w. key w \<noteq> ?k) (traverse l) = traverse l"
      by (auto simp: filter_id_conv)
    from 3 hi have fr: "filter (\<lambda>w. key w \<noteq> ?k) (traverse r) = traverse r"
      by (auto simp: filter_id_conv)
    show ?thesis
    proof (cases "l = Undefined")
      case True
      with 3 Node.prems(2) fr show ?thesis by (simp add: lt gt Let_def)
    next
      case lN: False
      show ?thesis
      proof (cases "r = Undefined")
        case True
        with lN 3 Node.prems(2) fl show ?thesis by (simp add: lt gt Let_def)
      next
        case rN: False
        from minNodeValue_Node [OF rN] obtain tv tleft tright theight where
          m: "minNodeValue r = Node tv tleft tright theight" by blast
        with lN rN 3 Node.prems(2) obtain r' where
          r': "remove vlt vgt r (ByVal tv) key = Some r'"
          and b: "rebalanceAfterRemove (Node tv l r' h) = Some t'"
          by (auto simp: lt gt Let_def split: option.splits)
        from minNodeValue_traverse [OF m] obtain rest where rest: "traverse r = tv # rest"
          by blast
        with or have "\<forall>a \<in> set rest. key a \<noteq> key tv" by (auto simp: ordered_def)
        with Node.IH(2) [OF or r'] rest have "traverse r' = rest" by simp
        with rebalanceAfterRemove_traverse [OF b] rest fl fr 3 show ?thesis by simp
      qed
    qed
  qed
qed

lemma remove_ordered:
  assumes "consistent key vlt vgt" "ordered key t" "remove vlt vgt t x key = Some t'"
  shows "ordered key t'"
proof -
  have "map key (filter (\<lambda>w. key w \<noteq> soughtKey key x) (traverse t)) =
      filter (\<lambda>k. k \<noteq> soughtKey key x) (map key (traverse t))"
    by (simp add: filter_map comp_def)
  with remove_traverse [OF assms] assms(2) show ?thesis
    by (simp add: ordered_def sorted_wrt_filter)
qed

lemma get_find:
  "ordered key t \<Longrightarrow> get t key k = List.find (\<lambda>w. key w = k) (traverse t)"
proof (induction t)
  case Undefined
  then show ?case by simp
next
  case (Node nv l r h)
  from Node.prems(1) have ol: "ordered key l" and or: "ordered key r"
    and lo: "\<forall>a \<in> set (traverse l). key a < key nv"
    and hi: "\<forall>b \<in> set (traverse r). key nv < key b" by (simp_all add: ordered_Node)
  have app: "List.find P (xs @ ys) = (case List.find P xs of None \<Rightarrow> List.find P ys | Some a \<Rightarrow> Some a)"
    for P and xs ys :: "'a list"
    by (induction xs) auto
  consider "k = key nv" | "key nv < k" | "k < key nv" by fastforce
  then show ?case
  proof cases
    case 1
    with lo have "List.find (\<lambda>w. key w = k) (traverse l) = None" by (auto simp: find_None_iff)
    with 1 show ?thesis by (simp add: app Let_def)
  next
    case 2
    with lo have "List.find (\<lambda>w. key w = k) (traverse l) = None" by (auto simp: find_None_iff)
    with 2 Node.IH(2) [OF or] show ?thesis by (auto simp: app Let_def)
  next
    case 3
    with hi have "List.find (\<lambda>w. key w = k) (traverse r) = None" by (auto simp: find_None_iff)
    with 3 Node.IH(1) [OF ol] show ?thesis by (auto simp: app Let_def split: option.splits)
  qed
qed

section \<open>A run of operations against the map of stored values\<close>

lemma consistent_identity: "consistent (\<lambda>x. x) (<) (>)"
  by (simp add: consistent_def)

lemma find_ins_list:
  "sorted_wrt (<) (map key xs) \<Longrightarrow>
   List.find (\<lambda>w. key w = k) (ins_list key v xs) =
     (if k = key v then
        (case List.find (\<lambda>w. key w = k) xs of None \<Rightarrow> Some v | Some w \<Rightarrow> Some w)
      else List.find (\<lambda>w. key w = k) xs)"
proof (induction xs)
  case Nil
  then show ?case by auto
next
  case (Cons w ws)
  then have "\<forall>a \<in> set ws. key w < key a" by simp
  then have "key v \<le> key w \<Longrightarrow> List.find (\<lambda>a. key a = key v) ws = None"
    by (auto simp: find_None_iff)
  with Cons show ?case by (auto split: option.splits)
qed

lemma find_filter_key:
  "List.find (\<lambda>w. key w = k) (filter (\<lambda>w. key w \<noteq> k0) xs) =
     (if k = k0 then None else List.find (\<lambda>w. key w = k) xs)"
  by (induction xs) auto

lemma length_filter_key:
  fixes key :: "'a \<Rightarrow> 'k::linorder"
  shows "sorted_wrt (<) (map key xs) \<Longrightarrow>
   length (filter (\<lambda>w. key w \<noteq> k) xs) =
     (if List.find (\<lambda>w. key w = k) xs = None then length xs else length xs - 1)"
proof (induction xs)
  case Nil
  then show ?case by simp
next
  case (Cons w ws)
  then have "\<forall>a \<in> set ws. key w < key a" by simp
  then have "key w = k \<Longrightarrow> filter (\<lambda>a. key a \<noteq> k) ws = ws"
    by (auto simp: filter_id_conv)
  with Cons show ?case by (auto simp: find_None_iff dest: length_pos_if_in_set)
qed

lemma perform_agrees:
  assumes "consistent (keyFn h) vlt vgt" "agrees h m"
  shows "\<exists>h'. perform vlt vgt h x = Some h' \<and> keyFn h' = keyFn h \<and>
           agrees h' (record_op (keyFn h) m x)"
proof (cases x)
  case (Insert v)
  from assms(2) have a: "avl (tree h)" and o: "ordered (keyFn h) (tree h)"
    and f: "\<And>k. List.find (\<lambda>w. keyFn h w = k) (traverse (tree h)) = m k"
    by (simp_all add: agrees_def)
  from insert_avl_grown [OF a, of v "keyFn h"] obtain t' where
    t': "insert_avl (tree h) v (keyFn h) = Some t'" "avl t'" by blast
  from insert_avl_traverse [OF o t'(1)] have tr: "traverse t' = ins_list (keyFn h) v (traverse (tree h))" .
  from insert_avl_ordered [OF o t'(1)] have o': "ordered (keyFn h) t'" .
  from o have s: "sorted_wrt (<) (map (keyFn h) (traverse (tree h)))" by (simp add: ordered_def)
  have "List.find (\<lambda>w. keyFn h w = k) (traverse t') = record_op (keyFn h) m (Insert v) k" for k
    unfolding tr find_ins_list [OF s] using f [of k] f [of "keyFn h v"]
    by (auto split: option.splits)
  with t' o' Insert show ?thesis by (simp add: handle_insert_def agrees_def)
next
  case (Remove k0)
  from assms(2) have a: "avl (tree h)" and o: "ordered (keyFn h) (tree h)"
    and f: "\<And>k. List.find (\<lambda>w. keyFn h w = k) (traverse (tree h)) = m k"
    by (simp_all add: agrees_def)
  from remove_avl [OF a, of vlt vgt "ByKey k0" "keyFn h"] obtain t' where
    t': "remove vlt vgt (tree h) (ByKey k0) (keyFn h) = Some t'" "avl t'" by blast
  from remove_traverse [OF assms(1) o t'(1)]
  have tr: "traverse t' = filter (\<lambda>w. keyFn h w \<noteq> k0) (traverse (tree h))" by simp
  from remove_ordered [OF assms(1) o t'(1)] have o': "ordered (keyFn h) t'" .
  have "List.find (\<lambda>w. keyFn h w = k) (traverse t') = record_op (keyFn h) m (Remove k0) k" for k
    unfolding tr find_filter_key using f [of k] by simp
  with t' o' Remove show ?thesis by (simp add: handle_remove_def agrees_def)
qed

lemma run_agrees:
  "consistent (keyFn h) vlt vgt \<Longrightarrow> agrees h m \<Longrightarrow>
   \<exists>h'. run vlt vgt h xs = Some h' \<and> keyFn h' = keyFn h \<and>
        agrees h' (foldl (record_op (keyFn h)) m xs)"
proof (induction xs arbitrary: h m)
  case Nil
  then show ?case by simp
next
  case (Cons x xs)
  from perform_agrees [OF Cons.prems, of x] obtain h1 where
    h1: "perform vlt vgt h x = Some h1" "keyFn h1 = keyFn h"
      "agrees h1 (record_op (keyFn h) m x)" by blast
  from Cons.prems(1) h1(2) have "consistent (keyFn h1) vlt vgt" by simp
  from Cons.IH [OF this h1(3)] h1 show ?case by auto
qed

lemma agrees_empty: "agrees \<lparr>tree = Undefined, keyFn = key\<rparr> Map.empty"
  by (simp add: agrees_def ordered_def)

lemma run_consistent:
  assumes "consistent key vlt vgt"
  shows "\<exists>h. run vlt vgt \<lparr>tree = Undefined, keyFn = key\<rparr> ops = Some h \<and> keyFn h = key \<and>
           agrees h (stored key ops)"
  using run_agrees [of "\<lparr>tree = Undefined, keyFn = key\<rparr>" vlt vgt Map.empty ops] assms agrees_empty [of key]
  by (simp add: stored_def)

lemma agrees_get: "agrees h m \<Longrightarrow> handle_get h k = m k"
  by (simp add: agrees_def handle_get_def get_find)

section \<open>The claims about order, lookup and removal where values compare as their keys\<close>

text \<open>
  Under \<open>consistent\<close> every reachable tree is ordered, \<^verbatim>\<open>get\<close> returns what the
  specification's map holds, and \<^verbatim>\<open>remove\<close> takes out exactly the value under the key.
\<close>

lemma consistent_traversal_increasing:
  assumes "consistent key vlt vgt"
    and "run vlt vgt \<lparr>tree = Undefined, keyFn = key\<rparr> ops = Some h"
  shows "sorted_wrt (<) (map key (handle_iterator h)) \<and>
         handle_reversed h = rev (handle_iterator h)"
  using run_consistent [OF assms(1), of ops] assms(2)
  by (auto simp: agrees_def ordered_def handle_iterator_def handle_reversed_def
      traverseReversed_rev)

lemma consistent_get_stored:
  assumes "consistent key vlt vgt"
    and "run vlt vgt \<lparr>tree = Undefined, keyFn = key\<rparr> ops = Some h"
  shows "handle_get h k = stored key ops k"
  using run_consistent [OF assms(1), of ops] assms(2) by (auto simp: agrees_get)

lemma consistent_remove:
  assumes "consistent key vlt vgt"
    and "run vlt vgt \<lparr>tree = Undefined, keyFn = key\<rparr> ops = Some h"
  shows "\<exists>h'. handle_remove vlt vgt h k = Some h' \<and> handle_get h' k = None \<and>
           length (handle_iterator h') =
             (if handle_get h k = None then length (handle_iterator h)
              else length (handle_iterator h) - 1)"
proof -
  from run_consistent [OF assms(1), of ops] assms(2) have k: "keyFn h = key"
    and ag: "agrees h (stored key ops)" by auto
  then have a: "avl (tree h)" and o: "ordered key (tree h)" by (simp_all add: agrees_def)
  from remove_avl [OF a, of vlt vgt "ByKey k" key] obtain t' where
    t': "remove vlt vgt (tree h) (ByKey k) key = Some t'" by blast
  from remove_traverse [OF assms(1) o t']
  have tr: "traverse t' = filter (\<lambda>w. key w \<noteq> k) (traverse (tree h))" by simp
  from remove_ordered [OF assms(1) o t'] have o': "ordered key t'" .
  from o have s: "sorted_wrt (<) (map key (traverse (tree h)))" by (simp add: ordered_def)
  have g: "get t' key k = None" by (simp add: get_find [OF o'] tr find_filter_key)
  have l: "length (traverse t') =
      (if get (tree h) key k = None then length (traverse (tree h))
       else length (traverse (tree h)) - 1)"
    by (simp only: tr length_filter_key [OF s] get_find [OF o])
  from t' g l k show ?thesis
    by (simp add: handle_remove_def handle_get_def handle_iterator_def)
qed

lemma consistent_remove_two_children:
  assumes "consistent key vlt vgt" "ordered key (Node nv l r h)"
    and "l \<noteq> Undefined" "r \<noteq> Undefined"
    and "remove vlt vgt (Node nv l r h) (ByKey (key nv)) key = Some t'"
  shows "\<exists>tv tleft tright theight rest. minNodeValue r = Node tv tleft tright theight \<and>
           traverse r = tv # rest \<and> traverse t' = traverse l @ tv # rest"
proof -
  from minNodeValue_Node [OF assms(4)] obtain tv tleft tright theight where
    m: "minNodeValue r = Node tv tleft tright theight" by blast
  from minNodeValue_traverse [OF m] obtain rest where rest: "traverse r = tv # rest" by blast
  from assms(2) have "\<forall>a \<in> set (traverse l). key a \<noteq> key nv"
    "\<forall>b \<in> set (traverse r). key b \<noteq> key nv" by (auto simp: ordered_Node)
  then have "filter (\<lambda>w. key w \<noteq> key nv) (traverse l) = traverse l"
    "filter (\<lambda>w. key w \<noteq> key nv) (traverse r) = traverse r"
    by (simp_all add: filter_id_conv)
  with remove_traverse [OF assms(1,2,5)] rest have "traverse t' = traverse l @ tv # rest"
    by simp
  with m rest show ?thesis by blast
qed

section \<open>The two-children case of \<^verbatim>\<open>remove\<close> under a key function\<close>

text \<open>
  Claim C6. The two-children case calls \<^verbatim>\<open>remove(node.right, temp!.val, key)\<close>: it passes
  the successor's value where the key is expected. With numbers keyed by their
  negation (a tree in descending order), removing key \<open>-2\<close> from the tree of 3, 2, 1
  copies the successor 1 into the root and then searches the right subtree for the
  value \<open>1\<close>, which finds nothing there, where the search for the successor's key \<open>-1\<close>
  would have removed the node: the successor node stays, and the tree holds 1 twice.
\<close>

theorem remove_passes_value_for_key:
  "remove (<) (>) (Node 2 (Node 3 Undefined Undefined 1) (Node 1 Undefined Undefined 1) 2)
     (ByKey (- 2)) uminus =
   Some (Node (1::int) (Node 3 Undefined Undefined 1) (Node 1 Undefined Undefined 1) 2) \<and>
   minNodeValue (Node (1::int) Undefined Undefined 1) = Node 1 Undefined Undefined 1 \<and>
   remove (<) (>) (Node (1::int) Undefined Undefined 1) (ByVal 1) uminus =
     Some (Node 1 Undefined Undefined 1) \<and>
   remove (<) (>) (Node (1::int) Undefined Undefined 1) (ByKey (- 1)) uminus = Some Undefined"
  by (simp add: Let_def)

text \<open>
  Claim C2, at the same input through the handle: after inserting 2, 1, 3 under the
  key function \<^verbatim>\<open>x => -x\<close> and removing key \<open>-2\<close>, the keys of the ascending traversal
  are \<open>-3, -1, -1\<close>, which is not strictly increasing. The descending traversal is
  the reverse of the ascending one here as everywhere (\<open>traverseReversed_rev\<close>).
\<close>

theorem traversal_not_increasing_after_remove:
  "\<exists>h. run (<) (>) \<lparr>tree = Undefined, keyFn = uminus\<rparr>
          [Insert (2::int), Insert 1, Insert 3, Remove (- 2)] = Some h \<and>
       handle_iterator h = [3, 1, 1] \<and>
       handle_reversed h = [1, 1, 3] \<and>
       map (keyFn h) (handle_iterator h) = [- 3, - 1, - 1] \<and>
       \<not> sorted_wrt (<) (map (keyFn h) (handle_iterator h))"
  by (simp add: eval_simps)

text \<open>
  Claim C3. Under the key function \<^verbatim>\<open>x => -x\<close>, after inserting 5, 6, 1, -1 and removing
  key \<open>-5\<close>, the value -1 (inserted under key 1 and never removed, so still \<open>stored\<close>)
  is gone: \<^verbatim>\<open>get(1)\<close> finds nothing. The search for the successor's value 1 in the right
  subtree stopped at the node whose key is 1 and removed it.
\<close>

theorem get_misses_stored_key_after_remove:
  "\<exists>h. run (<) (>) \<lparr>tree = Undefined, keyFn = uminus\<rparr>
          [Insert (5::int), Insert 6, Insert 1, Insert (- 1), Remove (- 5)] = Some h \<and>
       handle_iterator h = [6, 1, 1] \<and>
       handle_get h 1 = None \<and>
       stored uminus [Insert (5::int), Insert 6, Insert 1, Insert (- 1), Remove (- 5)] 1 =
         Some (- 1)"
  by (simp add: eval_simps stored_def)

text \<open>
  Claim C4. Under the key function \<^verbatim>\<open>x => -x\<close>, key \<open>-2\<close> is present after inserting
  2, 1, 3; after \<^verbatim>\<open>remove(-2)\<close> the key is not found, but the traversal still has three
  values, not two.
\<close>

theorem remove_keeps_length_of_present_key:
  "\<exists>h h'. run (<) (>) \<lparr>tree = Undefined, keyFn = uminus\<rparr>
          [Insert (2::int), Insert 1, Insert 3] = Some h \<and>
       handle_get h (- 2) = Some 2 \<and>
       handle_remove (<) (>) h (- 2) = Some h' \<and>
       handle_get h' (- 2) = None \<and>
       length (handle_iterator h) = 3 \<and>
       length (handle_iterator h') = 3"
  by (simp add: eval_simps)

end
